theory Spec2Isabelle
  imports Complex_Main "HOL-Library.AList"
begin

section \<open>Vault semantic search: a shallow embedding of search.py\<close>

text \<open>
  The development follows \<^verbatim>\<open>src/skills/vault-search/scripts/search.py\<close>. The function
  \<^verbatim>\<open>search\<close> opens the SQLite store, embeds the query text, runs one SQL statement
  (a nearest-neighbour scan of \<^verbatim>\<open>vec_chunks\<close>, left-joined with \<^verbatim>\<open>notes\<close>, filtered
  and ordered by distance) and turns the first \<^verbatim>\<open>n_results\<close> rows into result
  dictionaries. The Python code is translated line by line; the SQL statement is
  translated into list operations; the libraries the code calls (\<^verbatim>\<open>json.loads\<close>, the
  embedding function, the distance of sqlite-vec, SQLite compiling a raw predicate) are
  either modelled after their documentation or taken as parameters.
\<close>

subsection \<open>Python strings\<close>

text \<open>
  A Python \<^verbatim>\<open>str\<close> is a sequence of Unicode code points; \<^verbatim>\<open>len\<close> and slicing count code
  points. It is modelled as a list of code points; \<open>str\<close> turns an ASCII literal into
  such a list.
\<close>

type_synonym pystr = "nat list"

definition str :: "string \<Rightarrow> pystr" where
  "str s = map of_char s"

subsection \<open>The value json.loads returns\<close>

text \<open>
  \<^verbatim>\<open>json.loads\<close> returns \<^verbatim>\<open>None\<close>, a \<^verbatim>\<open>bool\<close>, an \<^verbatim>\<open>int\<close>, a \<^verbatim>\<open>float\<close>, a \<^verbatim>\<open>str\<close>, a
  \<^verbatim>\<open>list\<close> or a \<^verbatim>\<open>dict\<close>. A float is kept as the lexeme it was read from (its rounding
  to a double is not modelled); a dict is an association list in insertion order.
\<close>

datatype pyval =
    PyNone
  | PyBool bool
  | PyInt int
  | PyFloat pystr
  | PyStr pystr
  | PyList "pyval list"
  | PyDict "(pystr \<times> pyval) list"

subsection \<open>json.loads (CPython's json.decoder and json.scanner)\<close>

text \<open>
  The decoder of the standard library, written over the rest of the input instead of
  over an index into it. \<open>None\<close> stands for \<^verbatim>\<open>JSONDecodeError\<close>. Code points:
  34 is the double quote, 92 the backslash, 117 the letter u, 91 and 93 the square
  brackets, 123 and 125 the braces, 44 the comma, 58 the colon, 45 minus, 43 plus,
  46 the full stop, 48 to 57 the digits, 101 and 69 the letters e and E.
\<close>

definition is_ws :: "nat \<Rightarrow> bool" where
  \<comment> \<open>WHITESPACE: space, tab, newline, carriage return\<close>
  "is_ws c = (c = 32 \<or> c = 9 \<or> c = 10 \<or> c = 13)"

definition skip_ws :: "pystr \<Rightarrow> pystr" where
  "skip_ws s = dropWhile is_ws s"

definition is_digit :: "nat \<Rightarrow> bool" where
  "is_digit c = (48 \<le> c \<and> c \<le> 57)"

definition hex_digit :: "nat \<Rightarrow> nat option" where
  "hex_digit c =
     (if 48 \<le> c \<and> c \<le> 57 then Some (c - 48)
      else if 97 \<le> c \<and> c \<le> 102 then Some (c - 87)
      else if 65 \<le> c \<and> c \<le> 70 then Some (c - 55)
      else None)"

fun decode_uXXXX :: "pystr \<Rightarrow> nat option" where
  "decode_uXXXX (a # b # c # d # rest) =
     (case (hex_digit a, hex_digit b, hex_digit c, hex_digit d) of
        (Some h3, Some h2, Some h1, Some h0) \<Rightarrow> Some (((h3 * 16 + h2) * 16 + h1) * 16 + h0)
      | _ \<Rightarrow> None)"
| "decode_uXXXX _ = None"

definition BACKSLASH :: "nat \<Rightarrow> nat option" where
  \<comment> \<open>the escapes after a backslash: quote, backslash, slash, b, f, n, r, t\<close>
  "BACKSLASH esc =
     (if esc = 34 then Some 34
      else if esc = 92 then Some 92
      else if esc = 47 then Some 47
      else if esc = 98 then Some 8
      else if esc = 102 then Some 12
      else if esc = 110 then Some 10
      else if esc = 114 then Some 13
      else if esc = 116 then Some 9
      else None)"

definition append_chr :: "nat \<Rightarrow> (pystr \<times> pystr) option \<Rightarrow> (pystr \<times> pystr) option" where
  "append_chr c res = map_option (\<lambda>(chunks, fin). (c # chunks, fin)) res"

text \<open>
  \<^verbatim>\<open>scanstring\<close> (strict mode) reads a string literal whose opening quote has been
  consumed, and returns the decoded string and the input after the closing quote. A
  high surrogate escape followed by a low surrogate escape is one code point.
\<close>

fun scanstring :: "pystr \<Rightarrow> (pystr \<times> pystr) option" where
  "scanstring [] = None"
| "scanstring (c # cs) =
     (if c = 34 then Some ([], cs)
      else if c = 92 then
        (case cs of
           [] \<Rightarrow> None
         | esc # es \<Rightarrow>
             if esc \<noteq> 117 then
               (case BACKSLASH esc of
                  None \<Rightarrow> None
                | Some ch \<Rightarrow> append_chr ch (scanstring es))
             else
               (case decode_uXXXX es of
                  None \<Rightarrow> None
                | Some uni \<Rightarrow>
                    if 0xD800 \<le> uni \<and> uni \<le> 0xDBFF \<and> take 2 (drop 4 es) = [92, 117] then
                      (case decode_uXXXX (drop 6 es) of
                         None \<Rightarrow> None
                       | Some uni2 \<Rightarrow>
                           if 0xDC00 \<le> uni2 \<and> uni2 \<le> 0xDFFF then
                             append_chr (0x10000 + ((uni - 0xD800) * 1024 + (uni2 - 0xDC00)))
                               (scanstring (drop 10 es))
                           else append_chr uni (scanstring (drop 4 es)))
                    else append_chr uni (scanstring (drop 4 es))))
      else if c < 32 then None
      else append_chr c (scanstring cs))"

text \<open>
  Numbers: the regular expression
  \<^verbatim>\<open>(-?(?:0|[1-9][0-9]*))(\.[0-9]+)?([eE][-+]?[0-9]+)?\<close> matched at the start of the
  input. Without a fraction and an exponent the value is an \<^verbatim>\<open>int\<close>.
\<close>

definition digits_int :: "pystr \<Rightarrow> int" where
  "digits_int ds = foldl (\<lambda>a d. 10 * a + int (d - 48)) 0 ds"

definition match_exp :: "pystr \<Rightarrow> pystr \<times> pystr" where
  "match_exp s =
     (case s of
        [] \<Rightarrow> ([], s)
      | e # r \<Rightarrow>
          if e = 101 \<or> e = 69 then
            (let (sg, r') = (case r of
                               [] \<Rightarrow> ([], r)
                             | c # cs \<Rightarrow> if c = 45 \<or> c = 43 then ([c], cs) else ([], r))
             in case r' of
                  [] \<Rightarrow> ([], s)
                | d # ds \<Rightarrow>
                    if is_digit d
                    then (e # sg @ d # takeWhile is_digit ds, dropWhile is_digit ds)
                    else ([], s))
          else ([], s))"

definition match_frac :: "pystr \<Rightarrow> pystr \<times> pystr" where
  "match_frac s =
     (case s of
        p # q # qs \<Rightarrow>
          if p = 46 \<and> is_digit q
          then (p # q # takeWhile is_digit qs, dropWhile is_digit qs)
          else ([], s)
      | _ \<Rightarrow> ([], s))"

definition match_number :: "pystr \<Rightarrow> (pyval \<times> pystr) option" where
  "match_number s =
     (let (neg, s1) = (case s of
                         [] \<Rightarrow> (False, s)
                       | c # cs \<Rightarrow> if c = 45 then (True, cs) else (False, s))
      in case s1 of
           [] \<Rightarrow> None
         | d # ds \<Rightarrow>
             if \<not> is_digit d then None
             else
               (let (integer, s2) = (if d = 48 then ([d], ds)
                                     else (d # takeWhile is_digit ds, dropWhile is_digit ds));
                    (frac, s3) = match_frac s2;
                    (exp, s4) = match_exp s3
                in if frac \<noteq> [] \<or> exp \<noteq> []
                   then Some (PyFloat ((if neg then [45] else []) @ integer @ frac @ exp), s4)
                   else Some (PyInt ((if neg then - 1 else 1) * digits_int integer), s4)))"

definition dict :: "(pystr \<times> pyval) list \<Rightarrow> (pystr \<times> pyval) list" where
  \<comment> \<open>\<^verbatim>\<open>dict(pairs)\<close>: a later pair with the same key replaces the value in place\<close>
  "dict pairs = foldl (\<lambda>d (k, v). AList.update k v d) [] pairs"

text \<open>
  \<^verbatim>\<open>scan_once\<close> reads one value; \<open>array_loop\<close> and \<open>object_loop\<close> are the
  \<^verbatim>\<open>while True\<close> loops of \<^verbatim>\<open>JSONArray\<close> and \<^verbatim>\<open>JSONObject\<close>. The two tests
  \<open>length fin < length s\<close> say that reading a value consumed input; they are there for
  the termination proof and never fail (lemmas \<open>scan_once_shorter\<close>,
  \<open>array_loop_unguarded\<close> and \<open>object_loop_unguarded\<close> below).
\<close>

function scan_once :: "pystr \<Rightarrow> (pyval \<times> pystr) option"
  and array_loop :: "pyval list \<Rightarrow> pystr \<Rightarrow> (pyval \<times> pystr) option"
  and object_loop :: "(pystr \<times> pyval) list \<Rightarrow> pystr \<Rightarrow> (pyval \<times> pystr) option"
where
  "scan_once s =
     (case s of
        [] \<Rightarrow> None
      | nextchar # rest \<Rightarrow>
          if nextchar = 34 then
            map_option (\<lambda>(x, fin). (PyStr x, fin)) (scanstring rest)
          else if nextchar = 123 then
            (case skip_ws rest of
               [] \<Rightarrow> None
             | c # cs \<Rightarrow>
                 if c = 125 then Some (PyDict [], cs)
                 else if c = 34 then object_loop [] cs
                 else None)
          else if nextchar = 91 then
            (case skip_ws rest of
               [] \<Rightarrow> None
             | c # cs \<Rightarrow>
                 if c = 93 then Some (PyList [], cs)
                 else array_loop [] (c # cs))
          else if take 4 s = str ''null'' then Some (PyNone, drop 4 s)
          else if take 4 s = str ''true'' then Some (PyBool True, drop 4 s)
          else if take 5 s = str ''false'' then Some (PyBool False, drop 5 s)
          else
            (case match_number s of
               Some res \<Rightarrow> Some res
             | None \<Rightarrow>
                 if take 3 s = str ''NaN'' then Some (PyFloat (str ''NaN''), drop 3 s)
                 else if take 8 s = str ''Infinity''
                   then Some (PyFloat (str ''Infinity''), drop 8 s)
                 else if take 9 s = str ''-Infinity''
                   then Some (PyFloat (str ''-Infinity''), drop 9 s)
                 else None))"
| "array_loop vals s =
     (case scan_once s of
        None \<Rightarrow> None
      | Some (v, fin) \<Rightarrow>
          if \<not> length fin < length s then None
          else
            (case skip_ws fin of
               [] \<Rightarrow> None
             | c # cs \<Rightarrow>
                 if c = 93 then Some (PyList (vals @ [v]), cs)
                 else if c = 44 then array_loop (vals @ [v]) (skip_ws cs)
                 else None))"
| "object_loop pairs s =
     (case scanstring s of
        None \<Rightarrow> None
      | Some (key, fin) \<Rightarrow>
          (case skip_ws fin of
             [] \<Rightarrow> None
           | c # cs \<Rightarrow>
               if c \<noteq> 58 then None
               else
                 (case scan_once (skip_ws cs) of
                    None \<Rightarrow> None
                  | Some (v, fin') \<Rightarrow>
                      if \<not> length fin' < length s then None
                      else
                        (case skip_ws fin' of
                           [] \<Rightarrow> None
                         | d # ds \<Rightarrow>
                             if d = 125 then Some (PyDict (dict (pairs @ [(key, v)])), ds)
                             else if d = 44 then
                               (case skip_ws ds of
                                  [] \<Rightarrow> None
                                | q # qs \<Rightarrow>
                                    if q = 34 then object_loop (pairs @ [(key, v)]) qs
                                    else None)
                             else None))))"
  by pat_completeness auto

termination
proof -
  have string_shorter: "length r < length s" if "scanstring s = Some (x, r)" for s x r
    using that
  proof (induction s arbitrary: x r rule: scanstring.induct)
    case 1
    then show ?case by simp
  next
    case (2 c cs)
    then show ?case
      by (fastforce simp: append_chr_def split: if_splits list.splits option.splits)
  qed
  have ws_le: "length (skip_ws s) \<le> length s" for s
    by (simp add: skip_ws_def length_dropWhile_le)
  have ws_Cons: "length cs < length s" if "skip_ws s = c # cs" for s c cs
    using that ws_le [of s] by simp
  show ?thesis
  proof (relation "measure (\<lambda>x. case x of
            Inl s \<Rightarrow> 2 * length s
          | Inr (Inl (vals, s)) \<Rightarrow> 2 * length s + 1
          | Inr (Inr (pairs, s)) \<Rightarrow> 2 * length s + 1)", goal_cases)
    case 1
    show ?case by simp
  next
    case (2 s nextchar rest c cs)
    then show ?case using ws_Cons [of rest c cs] by simp
  next
    case (3 s nextchar rest c cs)
    then show ?case using ws_Cons [of rest c cs] by simp
  next
    case (4 vals s)
    show ?case by simp
  next
    case (5 vals s x2 v fin c cs)
    then show ?case using ws_Cons [of fin c cs] ws_le [of cs] by simp
  next
    case (6 pairs s x2 key fin c cs)
    then show ?case
      using string_shorter [of s key fin] ws_Cons [of fin c cs] ws_le [of cs] by simp
  next
    case (7 pairs s x2 key fin c cs x2a v fin' d ds q qs)
    then show ?case using ws_Cons [of fin' d ds] ws_Cons [of ds q qs] by simp
  qed
qed

declare scan_once.simps [simp del] array_loop.simps [simp del] object_loop.simps [simp del]

definition json_loads :: "pystr \<Rightarrow> pyval option" where
  \<comment> \<open>a leading byte order mark is refused; nothing but whitespace may follow the value\<close>
  "json_loads s =
     (if take 1 s = [0xFEFF] then None
      else
        (case scan_once (skip_ws s) of
           None \<Rightarrow> None
         | Some (obj, fin) \<Rightarrow> if skip_ws fin = [] then Some obj else None))"

subsection \<open>The store: two tables\<close>

text \<open>
  Modelled from the spec: the column types of the two tables (the script that creates
  and fills them is not part of the sources; the spec describes chunks and document
  metadata records). The SQL statement names the tables and their columns.
  \<^verbatim>\<open>vec_chunks\<close> is the sqlite-vec table of chunks (columns \<^verbatim>\<open>chunk_id\<close>, \<^verbatim>\<open>path\<close>,
  \<^verbatim>\<open>heading\<close>, \<^verbatim>\<open>chunk_text\<close>, \<^verbatim>\<open>embedding\<close>); \<^verbatim>\<open>notes\<close> holds the metadata of documents
  (\<^verbatim>\<open>path\<close>, \<^verbatim>\<open>title\<close>, \<^verbatim>\<open>folder\<close>, \<^verbatim>\<open>status\<close>, \<^verbatim>\<open>priority\<close>, \<^verbatim>\<open>due\<close>, \<^verbatim>\<open>tags\<close>). The
  column types follow the way \<^verbatim>\<open>search\<close> uses the columns: text columns are
  strings, and a column that may be \<^verbatim>\<open>NULL\<close> is an option.
\<close>

record vec_chunk =
  vc_chunk_id :: int
  vc_path :: pystr
  vc_heading :: "pystr option"
  vc_chunk_text :: pystr
  vc_embedding :: "real list"

record note_row =
  n_path :: pystr
  n_title :: "pystr option"
  n_folder :: "pystr option"
  n_status :: "pystr option"
  n_priority :: "pystr option"
  n_due :: "pystr option"
  n_tags :: "pystr option"

record db =
  vec_chunks :: "vec_chunk list"
  notes_table :: "note_row list"

text \<open>
  A row of the inner query (alias \<^verbatim>\<open>c\<close>): a chunk with its distance to the query. A
  distance is a real number: \<open>search\<close> orders by distances and passes them on, it never
  computes with them.
\<close>

record hit =
  c_chunk_id :: int
  c_path :: pystr
  c_heading :: "pystr option"
  c_chunk_text :: pystr
  c_distance :: real

text \<open>
  A row of \<^verbatim>\<open>c LEFT JOIN notes n\<close>: the chunk and its note; \<open>None\<close> when no note has
  the chunk's path, and then every column of \<^verbatim>\<open>n\<close> is \<^verbatim>\<open>NULL\<close>.
\<close>

type_synonym joined = "hit \<times> note_row option"

definition col :: "(note_row \<Rightarrow> pystr option) \<Rightarrow> note_row option \<Rightarrow> pystr option" where
  "col f n = (case n of None \<Rightarrow> None | Some m \<Rightarrow> f m)"

subsection \<open>The collaborators of search\<close>

text \<open>
  What \<^verbatim>\<open>search\<close> reaches outside its own code and outside the standard library:
  the file system (\<open>store\<close>: the database at a path, if the path exists), the
  embedding function of ChromaDB (\<open>ef\<close>; \<open>None\<close> when it raises), the distance
  sqlite-vec computes between the query vector and a stored embedding, and SQLite
  compiling a piece of SQL text it is handed (\<open>sql_expr\<close>: the rows on which the
  expression is true, or \<open>None\<close> when SQLite refuses the text with an
  \<^verbatim>\<open>sqlite3.Error\<close>). Each is a parameter: the theorems hold whatever they are.
\<close>

record world =
  store :: "pystr \<Rightarrow> db option"
  ef :: "pystr \<Rightarrow> real list option"
  vec_distance :: "real list \<Rightarrow> real list \<Rightarrow> real"
  sql_expr :: "pystr \<Rightarrow> (joined \<Rightarrow> bool) option"

subsection \<open>The WHERE clause\<close>

text \<open>
  \<^verbatim>\<open>where_clauses\<close> collects at most two pieces of SQL text:
  \<^verbatim>\<open>n.folder LIKE '{folder}%'\<close> when \<^verbatim>\<open>folder\<close> is truthy and \<^verbatim>\<open>({where})\<close> when \<^verbatim>\<open>where\<close>
  is truthy. \<^verbatim>\<open>None\<close> and the empty string are falsy in Python.
\<close>

datatype clause = FolderLike pystr | Paren pystr

definition where_clauses :: "pystr option \<Rightarrow> pystr option \<Rightarrow> clause list" where
  "where_clauses folder_arg where_arg =
     (case folder_arg of
        None \<Rightarrow> []
      | Some f \<Rightarrow> if f = [] then [] else [FolderLike f])
     @ (case where_arg of
          None \<Rightarrow> []
        | Some w \<Rightarrow> if w = [] then [] else [Paren w])"

definition clause_sql :: "clause \<Rightarrow> pystr" where
  "clause_sql cl =
     (case cl of
        FolderLike f \<Rightarrow> str ''n.folder LIKE '' @ [39] @ f @ str ''%'' @ [39]
      | Paren w \<Rightarrow> str ''('' @ w @ str '')'')"

definition fetch_limit :: "int \<Rightarrow> clause list \<Rightarrow> int" where
  "fetch_limit n_results cls = (if cls \<noteq> [] then n_results * 3 else n_results)"

subsection \<open>The SQL statement\<close>

text \<open>
  SQLite's \<^verbatim>\<open>LIKE\<close>: in the pattern \<^verbatim>\<open>%\<close> (code point 37) matches any sequence of
  characters and \<^verbatim>\<open>_\<close> (95) any single character; every other character matches
  itself, upper and lower case ASCII letters being equal. The first argument is the
  pattern.
\<close>

definition ascii_lower :: "nat \<Rightarrow> nat" where
  "ascii_lower c = (if 65 \<le> c \<and> c \<le> 90 then c + 32 else c)"

fun sql_like :: "pystr \<Rightarrow> pystr \<Rightarrow> bool" where
  "sql_like [] [] = True"
| "sql_like [] (c # cs) = False"
| "sql_like (p # ps) [] = (p = 37 \<and> sql_like ps [])"
| "sql_like (p # ps) (c # cs) =
     (if p = 37 then sql_like ps (c # cs) \<or> sql_like (p # ps) cs
      else (p = 95 \<or> ascii_lower p = ascii_lower c) \<and> sql_like ps cs)"

text \<open>
  The rows on which a clause is true. A folder without a single quote (code point 39)
  stays inside the string literal, and the clause is the \<^verbatim>\<open>LIKE\<close> test of
  \<^verbatim>\<open>n.folder\<close> against the folder followed by \<^verbatim>\<open>%\<close>; it is not true on a row whose
  folder is \<^verbatim>\<open>NULL\<close>. A folder with a quote ends the literal early, and what SQLite
  makes of the text is left to \<open>sql_expr\<close>, as for the raw predicate. Each clause is
  read as one expression of its own: a raw predicate that closes the parenthesis
  around it or opens a comment is outside this model.
\<close>

definition clause_rows :: "world \<Rightarrow> clause \<Rightarrow> (joined \<Rightarrow> bool) option" where
  "clause_rows w cl =
     (case cl of
        FolderLike f \<Rightarrow>
          if 39 \<in> set f then sql_expr w (clause_sql cl)
          else Some (\<lambda>(c, n). case col n_folder n of
                                 None \<Rightarrow> False
                               | Some d \<Rightarrow> sql_like (f @ str ''%'') d)
      | Paren x \<Rightarrow> sql_expr w (clause_sql cl))"

definition sql_limit :: "int \<Rightarrow> 'a list \<Rightarrow> 'a list" where
  \<comment> \<open>\<^verbatim>\<open>LIMIT k\<close>; a negative limit is no limit in SQLite\<close>
  "sql_limit k xs = (if k < 0 then xs else take (nat k) xs)"

definition hit_of :: "world \<Rightarrow> real list \<Rightarrow> vec_chunk \<Rightarrow> hit" where
  "hit_of w query_bytes vc =
     \<lparr>c_chunk_id = vc_chunk_id vc, c_path = vc_path vc, c_heading = vc_heading vc,
      c_chunk_text = vc_chunk_text vc,
      c_distance = vec_distance w query_bytes (vc_embedding vc)\<rparr>"

definition vec_scan :: "world \<Rightarrow> db \<Rightarrow> real list \<Rightarrow> hit list" where
  \<comment> \<open>\<^verbatim>\<open>SELECT ... FROM vec_chunks WHERE embedding MATCH ? ORDER BY distance\<close>\<close>
  "vec_scan w d query_bytes = sort_key c_distance (map (hit_of w query_bytes) (vec_chunks d))"

definition knn :: "world \<Rightarrow> db \<Rightarrow> real list \<Rightarrow> int \<Rightarrow> hit list" where
  \<comment> \<open>the inner query: the scan with its \<^verbatim>\<open>LIMIT ?\<close>\<close>
  "knn w d query_bytes k = sql_limit k (vec_scan w d query_bytes)"

definition left_join :: "hit list \<Rightarrow> note_row list \<Rightarrow> joined list" where
  \<comment> \<open>\<^verbatim>\<open>c LEFT JOIN notes n ON c.path = n.path\<close>\<close>
  "left_join cs ns =
     concat (map (\<lambda>c. case filter (\<lambda>n. c_path c = n_path n) ns of
                         [] \<Rightarrow> [(c, None)]
                       | ms \<Rightarrow> map (\<lambda>n. (c, Some n)) ms) cs)"

text \<open>
  The whole statement. SQL leaves the order of rows of equal distance open; the model
  keeps them in the order of the tables (a stable sort). No property below depends on
  that choice.
\<close>

definition where_rows :: "world \<Rightarrow> clause list \<Rightarrow> (joined \<Rightarrow> bool) option" where
  \<comment> \<open>the rows on which \<^verbatim>\<open>where_sql\<close> is true: the clauses joined by \<^verbatim>\<open>AND\<close>, or no
      condition at all; \<open>None\<close> when SQLite refuses one of them\<close>
  "where_rows w cls =
     map_option (\<lambda>ps r. list_all (\<lambda>p. p r) ps) (those (map (clause_rows w) cls))"

definition conn_execute ::
  "world \<Rightarrow> db \<Rightarrow> clause list \<Rightarrow> real list \<Rightarrow> int \<Rightarrow> joined list option" where
  \<comment> \<open>\<^verbatim>\<open>conn.execute(sql, (query_bytes, fetch_limit)).fetchall()\<close>; \<open>None\<close> is
      \<^verbatim>\<open>sqlite3.Error\<close>, raised here when SQLite refuses a clause (other failures of the
      engine, such as a corrupt file, are not modelled)\<close>
  "conn_execute w d cls query_bytes k =
     (case where_rows w cls of
        None \<Rightarrow> None
      | Some keep \<Rightarrow>
          Some (sort_key (\<lambda>r. c_distance (fst r))
                  (filter keep (left_join (knn w d query_bytes k) (notes_table d)))))"

subsection \<open>Building the results\<close>

record result =
  chunk_id :: int
  path :: pystr
  heading :: "pystr option"
  snippet :: pystr
  distance :: real
  title :: "pystr option"
  folder :: "pystr option"
  status :: "pystr option"
  priority :: "pystr option"
  due :: "pystr option"
  tags :: pyval

datatype exn = SystemExit int | EmbeddingError | JSONDecodeError

definition py_prefix :: "int \<Rightarrow> 'a list \<Rightarrow> 'a list" where
  \<comment> \<open>the slice \<^verbatim>\<open>rows[:n]\<close>; a negative \<open>n\<close> counts from the end\<close>
  "py_prefix n rows =
     (if 0 \<le> n then take (nat n) rows else take (length rows - nat (- n)) rows)"

definition snippet_of :: "pystr \<Rightarrow> pystr" where
  \<comment> \<open>\<^verbatim>\<open>row[3][:300] + "..." if len(row[3]) > 300 else row[3]\<close>\<close>
  "snippet_of chunk_text =
     (if length chunk_text > 300 then take 300 chunk_text @ str ''...'' else chunk_text)"

definition tags_of :: "pystr option \<Rightarrow> exn + pyval" where
  \<comment> \<open>\<^verbatim>\<open>json.loads(row[10]) if row[10] else []\<close>\<close>
  "tags_of t =
     (case t of
        None \<Rightarrow> Inr (PyList [])
      | Some s \<Rightarrow>
          if s = [] then Inr (PyList [])
          else (case json_loads s of
                  None \<Rightarrow> Inl JSONDecodeError
                | Some v \<Rightarrow> Inr v))"

definition make_result :: "joined \<Rightarrow> exn + result" where
  "make_result row =
     (case tags_of (col n_tags (snd row)) of
        Inl e \<Rightarrow> Inl e
      | Inr tg \<Rightarrow>
          Inr \<lparr>chunk_id = c_chunk_id (fst row),
               path = c_path (fst row),
               heading = c_heading (fst row),
               snippet = snippet_of (c_chunk_text (fst row)),
               distance = c_distance (fst row),
               title = col n_title (snd row),
               folder = col n_folder (snd row),
               status = col n_status (snd row),
               priority = col n_priority (snd row),
               due = col n_due (snd row),
               tags = tg\<rparr>)"

fun build_results :: "joined list \<Rightarrow> exn + result list" where
  \<comment> \<open>the \<^verbatim>\<open>for row in ...\<close> loop; the first row that raises ends it\<close>
  "build_results [] = Inr []"
| "build_results (row # rows) =
     (case make_result row of
        Inl e \<Rightarrow> Inl e
      | Inr r \<Rightarrow>
          (case build_results rows of
             Inl e \<Rightarrow> Inl e
           | Inr rs \<Rightarrow> Inr (r # rs)))"

subsection \<open>search\<close>

text \<open>
  The outcome of a call is the state of the connection when the call ends and either
  the exception that ended it or the list it returned. A missing database exits before
  \<^verbatim>\<open>sqlite3.connect\<close>. The embedding function and \<^verbatim>\<open>json.loads\<close> are called outside
  any \<^verbatim>\<open>try\<close>, so their exceptions leave \<^verbatim>\<open>search\<close> at once; an \<^verbatim>\<open>sqlite3.Error\<close> from
  \<^verbatim>\<open>conn.execute\<close> is caught, the connection is closed and the process exits with
  status 1. The query vector is handed to SQLite as it is (packing it into 32-bit
  floats is not modelled).
\<close>

datatype conn_state = NotConnected | ConnOpen | ConnClosed

definition search ::
  "world \<Rightarrow> pystr \<Rightarrow> pystr \<Rightarrow> int \<Rightarrow> pystr option \<Rightarrow> pystr option
     \<Rightarrow> conn_state \<times> (exn + result list)" where
  "search w query db_path n_results folder_arg where_arg =
     (case store w db_path of
        None \<Rightarrow> (NotConnected, Inl (SystemExit 1))
      | Some d \<Rightarrow>
          (case ef w query of
             None \<Rightarrow> (ConnOpen, Inl EmbeddingError)
           | Some query_bytes \<Rightarrow>
               (let cls = where_clauses folder_arg where_arg
                in case conn_execute w d cls query_bytes (fetch_limit n_results cls) of
                     None \<Rightarrow> (ConnClosed, Inl (SystemExit 1))
                   | Some rows \<Rightarrow>
                       (case build_results (py_prefix n_results rows) of
                          Inl e \<Rightarrow> (ConnOpen, Inl e)
                        | Inr results \<Rightarrow> (ConnClosed, Inr results)))))"

subsection \<open>Notions the properties are stated with\<close>

text \<open>
  The rows of the join, over a given list of chunks, on which every active clause is
  true (none when SQLite refuses a clause), and Python's \<^verbatim>\<open>str.startswith\<close>.
\<close>

definition qualifying :: "world \<Rightarrow> db \<Rightarrow> clause list \<Rightarrow> hit list \<Rightarrow> joined list" where
  "qualifying w d cls hits =
     (case where_rows w cls of
        None \<Rightarrow> []
      | Some keep \<Rightarrow> filter keep (left_join hits (notes_table d)))"

definition startswith :: "pystr \<Rightarrow> pystr \<Rightarrow> bool" where
  "startswith s p = (take (length p) s = p)"

definition truthy :: "pystr option \<Rightarrow> bool" where
  \<comment> \<open>\<^verbatim>\<open>if x:\<close> for an optional string\<close>
  "truthy x = (case x of None \<Rightarrow> False | Some s \<Rightarrow> s \<noteq> [])"

subsection \<open>The stored form of a tag list\<close>

text \<open>
  Modelled from the spec: the serialised list of strings that the indexer stores in
  \<^verbatim>\<open>notes.tags\<close> (the indexer is not part of the sources; the spec calls the stored
  form a serialized list and gives \<^verbatim>\<open>["a","b"]\<close>). The text is the one Python's
  \<^verbatim>\<open>json.dumps\<close> writes for a list of strings: each string between double quotes, with
  two-character escapes for the quote, the backslash and five control characters,
  \<^verbatim>\<open>\uXXXX\<close> for the other control characters and, when \<open>ensure_ascii\<close> holds (the
  default), for every character outside the printable ASCII range, as a surrogate pair
  above \<^verbatim>\<open>0xFFFF\<close>; the items are separated by \<open>sep\<close> (\<^verbatim>\<open>", "\<close> by default, \<^verbatim>\<open>","\<close> in
  the compact form) and enclosed in square brackets. \<open>scalar\<close> says that a code point is
  a Unicode scalar value, that is, not a surrogate: text read from SQLite has no others.
\<close>

definition hex_char :: "nat \<Rightarrow> nat" where
  "hex_char d = (if d < 10 then 48 + d else 87 + d)"

definition hex4 :: "nat \<Rightarrow> pystr" where
  "hex4 n = [hex_char (n div 4096 mod 16), hex_char (n div 256 mod 16),
             hex_char (n div 16 mod 16), hex_char (n mod 16)]"

definition escape_chr :: "bool \<Rightarrow> nat \<Rightarrow> pystr" where
  \<comment> \<open>with \<open>ensure_ascii\<close> every character outside the printable ASCII range is escaped;
      without it only the quote, the backslash and the control characters are\<close>
  "escape_chr ensure_ascii c =
     (if c = 34 then [92, 34]
      else if c = 92 then [92, 92]
      else if c = 10 then [92, 110]
      else if c = 13 then [92, 114]
      else if c = 9 then [92, 116]
      else if c = 8 then [92, 98]
      else if c = 12 then [92, 102]
      else if 32 \<le> c \<and> (c \<le> 126 \<or> \<not> ensure_ascii) then [c]
      else if c < 0x10000 then [92, 117] @ hex4 c
      else [92, 117] @ hex4 (0xD800 + (c - 0x10000) div 1024 mod 1024)
           @ [92, 117] @ hex4 (0xDC00 + (c - 0x10000) mod 1024))"

definition encode_basestring :: "bool \<Rightarrow> pystr \<Rightarrow> pystr" where
  \<comment> \<open>\<^verbatim>\<open>encode_basestring_ascii\<close> when \<open>ensure_ascii\<close> holds, \<^verbatim>\<open>encode_basestring\<close> otherwise\<close>
  "encode_basestring ensure_ascii s = [34] @ concat (map (escape_chr ensure_ascii) s) @ [34]"

fun join_items :: "pystr \<Rightarrow> pystr list \<Rightarrow> pystr" where
  "join_items sep [] = []"
| "join_items sep [x] = x"
| "join_items sep (x # y # ys) = x @ sep @ join_items sep (y # ys)"

definition json_dumps_list :: "bool \<Rightarrow> pystr \<Rightarrow> pystr list \<Rightarrow> pystr" where
  \<comment> \<open>Modelled from the spec: the text stored in \<^verbatim>\<open>notes.tags\<close> for the tag list \<open>xs\<close>\<close>
  "json_dumps_list ensure_ascii sep xs =
     [91] @ join_items sep (map (encode_basestring ensure_ascii) xs) @ [93]"

definition scalar :: "nat \<Rightarrow> bool" where
  "scalar c = (c < 0xD800 \<or> (0xE000 \<le> c \<and> c < 0x110000))"


subsection \<open>A small vault\<close>

text \<open>
  Four chunks of four documents at distances 1, 2, 3 and 4 from every query; three
  documents live in the folder \<^verbatim>\<open>Work\<close> and the farthest one in \<^verbatim>\<open>Home\<close>. The tags of
  the nearest document are a parameter. The only raw predicate this SQLite compiles is
  \<^verbatim>\<open>due IS NULL\<close>.
\<close>

definition ex_distance :: "real list \<Rightarrow> real list \<Rightarrow> real" where
  "ex_distance q e =
     (case q of [] \<Rightarrow> 0 | a # _ \<Rightarrow> (case e of [] \<Rightarrow> 0 | b # _ \<Rightarrow> \<bar>a - b\<bar>))"

definition ex_chunk :: "int \<Rightarrow> string \<Rightarrow> string \<Rightarrow> real \<Rightarrow> vec_chunk" where
  "ex_chunk i p t x =
     \<lparr>vc_chunk_id = i, vc_path = str p, vc_heading = None, vc_chunk_text = str t,
      vc_embedding = [x]\<rparr>"

definition ex_note :: "string \<Rightarrow> string \<Rightarrow> pystr option \<Rightarrow> note_row" where
  "ex_note p f t =
     \<lparr>n_path = str p, n_title = Some (str p), n_folder = Some (str f), n_status = None,
      n_priority = None, n_due = None, n_tags = t\<rparr>"

definition vault :: "pystr option \<Rightarrow> db" where
  "vault t =
     \<lparr>vec_chunks = [ex_chunk 1 ''w.md'' ''alpha'' 1, ex_chunk 2 ''x.md'' ''beta'' 2,
                     ex_chunk 3 ''y.md'' ''gamma'' 3, ex_chunk 4 ''z.md'' ''delta'' 4],
      notes_table = [ex_note ''w.md'' ''Work'' t, ex_note ''x.md'' ''Work'' None,
                     ex_note ''y.md'' ''Work'' (Some []),
                     ex_note ''z.md'' ''Home'' (Some (str ''[]''))]\<rparr>"

definition ex_world :: "pystr option \<Rightarrow> world" where
  "ex_world t =
     \<lparr>store = (\<lambda>p. if p = str ''vault.db'' then Some (vault t) else None),
      ef = (\<lambda>q. Some [0]),
      vec_distance = ex_distance,
      sql_expr = (\<lambda>x. if x = str ''(due IS NULL)''
                       then Some (\<lambda>(c, n). col n_due n = None) else None)\<rparr>"

section \<open>Properties\<close>

subsection \<open>Evaluation rules and auxiliary facts\<close>

lemmas json_eval = json_loads_def str_def skip_ws_def is_ws_def is_digit_def match_number_def
  match_frac_def match_exp_def append_chr_def BACKSLASH_def hex_digit_def dict_def
  digits_int_def scan_once.simps array_loop.simps object_loop.simps

lemmas search_eval = str_def search_def ex_world_def vault_def ex_chunk_def ex_note_def ex_distance_def
  where_clauses_def fetch_limit_def conn_execute_def where_rows_def clause_rows_def
  clause_sql_def knn_def vec_scan_def hit_of_def sql_limit_def left_join_def py_prefix_def
  make_result_def tags_of_def snippet_of_def col_def ascii_lower_def

text \<open>
  Reading a value consumes input, so the two tests in \<open>array_loop\<close> and \<open>object_loop\<close>
  never fail and the loops satisfy the equations without them.
\<close>

lemma match_frac_shorter: "length (snd (match_frac s)) \<le> length s"
  by (auto simp: match_frac_def length_dropWhile_le le_SucI split: list.splits)

lemma match_exp_shorter: "length (snd (match_exp s)) \<le> length s"
  by (auto simp: match_exp_def length_dropWhile_le le_SucI Let_def split: list.splits if_splits)

lemma match_number_shorter:
  assumes "match_number s = Some (v, r)"
  shows "length r < length s"
proof -
  have tail: "length (snd (match_exp (snd (match_frac t)))) \<le> length t" for t
    using match_exp_shorter [of "snd (match_frac t)"] match_frac_shorter [of t] by simp
  have dw: "length (snd (match_exp (snd (match_frac (dropWhile is_digit t))))) \<le> length t" for t
    using tail [of "dropWhile is_digit t"] length_dropWhile_le [of is_digit t] by simp
  from assms show ?thesis
    using tail dw
    by (auto simp: match_number_def Let_def split_beta le_imp_less_Suc less_SucI
        split: list.splits if_splits)
qed

lemma scanstring_shorter: "scanstring s = Some (x, r) \<Longrightarrow> length r < length s"
proof (induction s arbitrary: x r rule: scanstring.induct)
  case 1
  then show ?case by simp
next
  case (2 c cs)
  then show ?case
    by (fastforce simp: append_chr_def split: if_splits list.splits option.splits)
qed

lemma length_skip_ws: "length (skip_ws s) \<le> length s"
  by (simp add: skip_ws_def length_dropWhile_le)

lemma skip_ws_Cons_shorter: "skip_ws s = c # cs \<Longrightarrow> length cs < length s"
  using length_skip_ws [of s] by simp

lemma decoder_shorter:
  shows scan_once_shorter: "scan_once s = Some (v, r) \<Longrightarrow> length r < length s"
    and array_loop_shorter: "array_loop vals s = Some (v, r) \<Longrightarrow> length r < length s"
    and object_loop_shorter: "object_loop pairs s = Some (v, r) \<Longrightarrow> length r < length s"
proof (induction s and vals s and pairs s arbitrary: v r and v r and v r
    rule: scan_once_array_loop_object_loop.induct)
  case (1 s)
  show ?case
  proof (cases s)
    case Nil
    with "1.prems" show ?thesis by (simp add: scan_once.simps)
  next
    case (Cons nextchar rest)
    consider (string) "nextchar = 34" | (object) "nextchar = 123" | (array) "nextchar = 91"
      | (other) "nextchar \<noteq> 34" "nextchar \<noteq> 123" "nextchar \<noteq> 91"
      by blast
    then show ?thesis
    proof cases
      case string
      with "1.prems" Cons obtain x where "scanstring rest = Some (x, r)"
        by (auto simp: scan_once.simps)
      from scanstring_shorter [OF this] Cons show ?thesis by simp
    next
      case object
      show ?thesis
      proof (cases "skip_ws rest")
        case Nil
        with "1.prems" Cons object show ?thesis by (simp add: scan_once.simps)
      next
        case inner: (Cons c cs)
        from skip_ws_Cons_shorter [OF inner] have cs: "length cs < length rest" .
        show ?thesis
        proof (cases "c = 125")
          case True
          with "1.prems" Cons object inner cs show ?thesis
            by (simp add: scan_once.simps)
        next
          case False
          with "1.prems" Cons object inner have c: "c = 34" and o: "object_loop [] cs = Some (v, r)"
            by (auto simp: scan_once.simps split: if_splits)
          from object have "nextchar \<noteq> 34" by simp
          from "1.IH"(1) [OF Cons this object inner False c o] cs Cons show ?thesis by simp
        qed
      qed
    next
      case array
      show ?thesis
      proof (cases "skip_ws rest")
        case Nil
        with "1.prems" Cons array show ?thesis by (simp add: scan_once.simps)
      next
        case inner: (Cons c cs)
        from skip_ws_Cons_shorter [OF inner] have cs: "length cs < length rest" .
        show ?thesis
        proof (cases "c = 93")
          case True
          with "1.prems" Cons array inner cs show ?thesis
            by (simp add: scan_once.simps)
        next
          case False
          with "1.prems" Cons array inner have a: "array_loop [] (c # cs) = Some (v, r)"
            by (auto simp: scan_once.simps split: if_splits)
          from array have "nextchar \<noteq> 34" "nextchar \<noteq> 123" by simp_all
          from "1.IH"(2) [OF Cons this array inner False a] cs Cons show ?thesis by simp
        qed
      qed
    next
      case other
      with "1.prems" Cons show ?thesis
        by (auto simp: scan_once.simps str_def dest: match_number_shorter
            split: if_splits option.splits)
    qed
  qed
next
  case (2 vals s)
  from "2.prems" obtain x fin where
    v: "scan_once s = Some (x, fin)" and g: "length fin < length s"
    by (auto simp: array_loop.simps [of vals s] split: option.splits if_splits)
  show ?case
  proof (cases "skip_ws fin")
    case Nil
    with "2.prems" v g show ?thesis by (simp add: array_loop.simps [of vals s])
  next
    case (Cons c cs)
    from skip_ws_Cons_shorter [OF Cons] have cs: "length cs < length fin" .
    show ?thesis
    proof (cases "c = 93")
      case True
      with "2.prems" v g Cons cs show ?thesis by (simp add: array_loop.simps [of vals s])
    next
      case False
      with "2.prems" v g Cons have c: "c = 44"
        and a: "array_loop (vals @ [x]) (skip_ws cs) = Some (v, r)"
        by (auto simp: array_loop.simps [of vals s] split: if_splits)
      have "\<not> \<not> length fin < length s" using g by simp
      from "2.IH"(2) [OF v refl this Cons False c a] length_skip_ws [of cs] cs g
      show ?thesis by simp
    qed
  qed
next
  case (3 pairs s)
  from "3.prems" obtain key fin where k: "scanstring s = Some (key, fin)"
    by (auto simp: object_loop.simps [of pairs s] split: option.splits)
  from "3.prems" k obtain c cs where s1: "skip_ws fin = c # cs" and c: "c = 58"
    by (auto simp: object_loop.simps [of pairs s] split: list.splits if_splits)
  from "3.prems" k s1 c obtain x fin' where
    v: "scan_once (skip_ws cs) = Some (x, fin')" and g: "length fin' < length s"
    by (auto simp: object_loop.simps [of pairs s] split: option.splits if_splits)
  from "3.prems" k s1 c v g obtain d ds where s2: "skip_ws fin' = d # ds"
    by (auto simp: object_loop.simps [of pairs s] split: list.splits)
  from skip_ws_Cons_shorter [OF s2] have ds: "length ds < length fin'" .
  show ?case
  proof (cases "d = 125")
    case True
    with "3.prems" k s1 c v g s2 ds show ?thesis
      by (simp add: object_loop.simps [of pairs s])
  next
    case False
    with "3.prems" k s1 c v g s2 obtain q qs where
      d: "d = 44" and s3: "skip_ws ds = q # qs" and q: "q = 34"
      and o: "object_loop (pairs @ [(key, x)]) qs = Some (v, r)"
      by (auto simp: object_loop.simps [of pairs s] split: list.splits if_splits)
    have c': "\<not> c \<noteq> 58" using c by simp
    have g': "\<not> \<not> length fin' < length s" using g by simp
    from "3.IH"(2) [OF k refl s1 c' v refl g' s2 False d s3 q o]
      skip_ws_Cons_shorter [OF s3] ds g
    show ?thesis by simp
  qed
qed

lemma array_loop_unguarded:
  "array_loop vals s =
     (case scan_once s of
        None \<Rightarrow> None
      | Some (v, fin) \<Rightarrow>
          (case skip_ws fin of
             [] \<Rightarrow> None
           | c # cs \<Rightarrow>
               if c = 93 then Some (PyList (vals @ [v]), cs)
               else if c = 44 then array_loop (vals @ [v]) (skip_ws cs)
               else None))"
  by (subst array_loop.simps) (auto split: option.splits dest: scan_once_shorter)

lemma object_loop_unguarded:
  "object_loop pairs s =
     (case scanstring s of
        None \<Rightarrow> None
      | Some (key, fin) \<Rightarrow>
          (case skip_ws fin of
             [] \<Rightarrow> None
           | c # cs \<Rightarrow>
               if c \<noteq> 58 then None
               else
                 (case scan_once (skip_ws cs) of
                    None \<Rightarrow> None
                  | Some (v, fin') \<Rightarrow>
                      (case skip_ws fin' of
                         [] \<Rightarrow> None
                       | d # ds \<Rightarrow>
                           if d = 125 then Some (PyDict (dict (pairs @ [(key, v)])), ds)
                           else if d = 44 then
                             (case skip_ws ds of
                                [] \<Rightarrow> None
                              | q # qs \<Rightarrow>
                                  if q = 34 then object_loop (pairs @ [(key, v)]) qs
                                  else None)
                           else None))))"
proof (cases "scanstring s")
  case None
  then show ?thesis by (subst object_loop.simps) simp
next
  case (Some a)
  then obtain key fin where k: "scanstring s = Some (key, fin)" by (cases a) simp
  have guard: "length fin' < length s"
    if "skip_ws fin = c # cs" and "scan_once (skip_ws cs) = Some (v, fin')" for c cs v fin'
    using scan_once_shorter [OF that(2)] length_skip_ws [of cs]
      skip_ws_Cons_shorter [OF that(1)] scanstring_shorter [OF k] by simp
  show ?thesis
    by (subst object_loop.simps) (auto simp: k split: option.splits list.splits dest: guard)
qed

text \<open>Facts about the pipeline of \<open>search\<close>.\<close>

lemma build_results_rows:
  "build_results rows = Inr rs \<Longrightarrow>
     length rs = length rows \<and> map distance rs = map (\<lambda>r. c_distance (fst r)) rows
     \<and> map folder rs = map (\<lambda>r. col n_folder (snd r)) rows"
proof (induction rows arbitrary: rs)
  case Nil
  then show ?case by simp
next
  case (Cons row rows)
  then show ?case
    by (auto simp: make_result_def split: sum.splits)
qed

text \<open>What a call that returns a list has gone through.\<close>

lemma search_returns:
  assumes "snd (search w query db_path n folder_arg where_arg) = Inr rs"
  obtains d query_bytes keep where
    "store w db_path = Some d" and "ef w query = Some query_bytes"
    and "where_rows w (where_clauses folder_arg where_arg) = Some keep"
    and "build_results
           (py_prefix n
              (sort_key (\<lambda>r. c_distance (fst r))
                 (filter keep
                    (left_join
                       (knn w d query_bytes (fetch_limit n (where_clauses folder_arg where_arg)))
                       (notes_table d))))) = Inr rs"
  using assms
  by (auto simp: search_def conn_execute_def Let_def split: option.splits sum.splits)

lemma build_results_made:
  "build_results rows = Inr rs \<Longrightarrow> list_all2 (\<lambda>row r. make_result row = Inr r) rows rs"
proof (induction rows arbitrary: rs)
  case Nil
  then show ?case by simp
next
  case (Cons row rows)
  then show ?case by (auto split: sum.splits)
qed

lemma search_results_made:
  assumes "snd (search w query db_path n_results folder_arg where_arg) = Inr rs"
  shows "\<exists>rows. list_all2 (\<lambda>row r. make_result row = Inr r) rows rs"
proof -
  from assms obtain rows where "build_results (py_prefix n_results rows) = Inr rs"
    by (rule search_returns)
  then show ?thesis by (blast dest: build_results_made)
qed

lemma length_py_prefix: "0 \<le> n \<Longrightarrow> length (py_prefix n rows) = min (nat n) (length rows)"
  by (simp add: py_prefix_def)





lemma search_returns_length:
  assumes "snd (search w query db_path n folder_arg where_arg) = Inr rs"
    and "store w db_path = Some d" and "ef w query = Some query_bytes" and "0 \<le> n"
  shows "length rs =
           min (nat n)
             (length (qualifying w d (where_clauses folder_arg where_arg)
                (knn w d query_bytes (fetch_limit n (where_clauses folder_arg where_arg)))))"
proof -
  from assms(1) obtain d' qb' keep where
    "store w db_path = Some d'" and "ef w query = Some qb'"
    and keep: "where_rows w (where_clauses folder_arg where_arg) = Some keep"
    and built: "build_results
           (py_prefix n
              (sort_key (\<lambda>r. c_distance (fst r))
                 (filter keep
                    (left_join
                       (knn w d' qb' (fetch_limit n (where_clauses folder_arg where_arg)))
                       (notes_table d'))))) = Inr rs"
    by (rule search_returns)
  with assms(2,3) have [simp]: "d' = d" "qb' = query_bytes" by simp_all
  from built have "length rs = length (py_prefix n
              (sort_key (\<lambda>r. c_distance (fst r))
                 (filter keep
                    (left_join
                       (knn w d query_bytes (fetch_limit n (where_clauses folder_arg where_arg)))
                       (notes_table d)))))"
    by (simp add: build_results_rows)
  with assms(4) keep show ?thesis
    by (simp add: length_py_prefix qualifying_def)
qed

subsection \<open>C1: the result count never exceeds n_results\<close>

text \<open>
  C1. For every query with \<open>n_results \<ge> 1\<close>, whatever the folder, the raw predicate and
  the store, a call of \<open>search\<close> that returns a list returns at most \<open>n_results\<close>
  results. (A call that ends in an exception returns no list.)
\<close>

theorem result_count_bounded:
  assumes "snd (search w query db_path n_results folder_arg where_arg) = Inr rs"
    and "1 \<le> n_results"
  shows "int (length rs) \<le> n_results"
proof -
  from assms(1) obtain rows where "build_results (py_prefix n_results rows) = Inr rs"
    by (rule search_returns)
  then have "length rs = length (py_prefix n_results rows)"
    by (simp add: build_results_rows)
  with assms(2) show ?thesis
    by (simp add: length_py_prefix)
qed

theorem result_count_bounded_witness:
  "\<exists>rs. snd (search (ex_world None) (str ''q'') (str ''vault.db'') 2 None None) = Inr rs
        \<and> (1::int) \<le> 2 \<and> int (length rs) \<le> 2"
proof -
  have "\<exists>rs. snd (search (ex_world None) (str ''q'') (str ''vault.db'') 2 None None) = Inr rs"
    by (simp add: search_eval)
  then obtain rs where
    r: "snd (search (ex_world None) (str ''q'') (str ''vault.db'') 2 None None) = Inr rs" ..
  from result_count_bounded [OF r] have "int (length rs) \<le> 2" by simp
  with r show ?thesis by simp
qed

subsection \<open>C2: the results are in ascending order of distance\<close>



subsection \<open>C4: the candidate window\<close>

text \<open>
  C4. The limit handed to the vector scan is \<open>n_results\<close> when neither a folder nor a
  raw predicate is supplied, and three times \<open>n_results\<close> when at least one of them is.
  Supplied is what Python's \<^verbatim>\<open>if folder:\<close> and \<^verbatim>\<open>if where:\<close> test: the argument is
  neither \<^verbatim>\<open>None\<close> nor the empty string.
\<close>

theorem fetch_window:
  "fetch_limit n_results (where_clauses folder_arg where_arg) =
     (if truthy folder_arg \<or> truthy where_arg then 3 * n_results else n_results)"
  by (simp add: fetch_limit_def where_clauses_def truthy_def split: option.splits)

subsection \<open>C7: the snippet\<close>


subsection \<open>C3: the fixed window and the requested count\<close>

text \<open>
  C3 as stated: with an active filter, if the whole index holds at least \<open>n_results\<close>
  chunks whose joined metadata satisfies the filters, \<open>search\<close> returns exactly
  \<open>n_results\<close> results. The code scans a fixed window of \<open>3 * n_results\<close> nearest chunks
  once and filters afterwards, so the statement fails: in the small vault the only
  chunk in \<^verbatim>\<open>Home\<close> is the fourth nearest, and a search for one result in \<^verbatim>\<open>Home\<close>
  looks at three chunks and returns nothing.
\<close>

theorem fixed_window_underfills:
  "where_clauses (Some (str ''Home'')) None \<noteq> []
   \<and> length (qualifying (ex_world None) (vault None) (where_clauses (Some (str ''Home'')) None)
               (vec_scan (ex_world None) (vault None) [0])) = 1
   \<and> search (ex_world None) (str ''q'') (str ''vault.db'') 1 (Some (str ''Home'')) None
       = (ConnClosed, Inr [])"
  by (simp add: qualifying_def search_eval json_eval)

text \<open>
  C3 as amended: with an active filter and \<open>n_results \<ge> 0\<close>, if at least \<open>n_results\<close>
  rows of the join over the \<open>3 * n_results\<close> nearest chunks satisfy every active
  clause, then a search that returns a list returns exactly \<open>n_results\<close> results.
\<close>

theorem window_fills_count:
  assumes "snd (search w query db_path n_results folder_arg where_arg) = Inr rs"
    and "store w db_path = Some d" and "ef w query = Some query_bytes"
    and "0 \<le> n_results"
    and "where_clauses folder_arg where_arg \<noteq> []"
    and "nat n_results \<le> length (qualifying w d (where_clauses folder_arg where_arg)
                                  (knn w d query_bytes (3 * n_results)))"
  shows "int (length rs) = n_results"
proof -
  from assms(5) have "fetch_limit n_results (where_clauses folder_arg where_arg) = 3 * n_results"
    by (simp add: fetch_limit_def)
  with search_returns_length [OF assms(1-4)] assms(6,4) show ?thesis by simp
qed

theorem window_fills_count_witness:
  "\<exists>rs. snd (search (ex_world None) (str ''q'') (str ''vault.db'') 2
               (Some (str ''Work'')) None) = Inr rs
        \<and> store (ex_world None) (str ''vault.db'') = Some (vault None)
        \<and> ef (ex_world None) (str ''q'') = Some [0]
        \<and> (0::int) \<le> 2
        \<and> where_clauses (Some (str ''Work'')) None \<noteq> []
        \<and> nat 2 \<le> length (qualifying (ex_world None) (vault None)
                            (where_clauses (Some (str ''Work'')) None)
                            (knn (ex_world None) (vault None) [0] (3 * 2)))
        \<and> int (length rs) = 2"
proof -
  have "\<exists>rs. snd (search (ex_world None) (str ''q'') (str ''vault.db'') 2
                 (Some (str ''Work'')) None) = Inr rs"
    by (simp add: search_eval json_eval)
  then obtain rs where
    r: "snd (search (ex_world None) (str ''q'') (str ''vault.db'') 2
              (Some (str ''Work'')) None) = Inr rs" ..
  have s: "store (ex_world None) (str ''vault.db'') = Some (vault None)"
    by (simp add: ex_world_def)
  have e: "ef (ex_world None) (str ''q'') = Some [0]"
    by (simp add: ex_world_def)
  have c: "where_clauses (Some (str ''Work'')) None \<noteq> []"
    by (simp add: where_clauses_def str_def)
  have q: "nat 2 \<le> length (qualifying (ex_world None) (vault None)
                            (where_clauses (Some (str ''Work'')) None)
                            (knn (ex_world None) (vault None) [0] (3 * 2)))"
    by (simp add: qualifying_def search_eval json_eval)
  from window_fills_count [OF r s e _ c q] have "int (length rs) = 2" by simp
  with r s e c q show ?thesis by auto
qed

subsection \<open>C6: a filter never adds results\<close>



subsection \<open>C5: the folder filter\<close>

text \<open>
  C5 says that with a folder filter \<open>F\<close> every result's folder starts with \<open>F\<close>, and
  the docstring of \<^verbatim>\<open>search\<close> calls the argument a folder prefix. The code tests
  \<^verbatim>\<open>n.folder LIKE 'F%'\<close> with \<open>F\<close> pasted into the pattern unescaped, so an
  underscore or a percent sign in \<open>F\<close> is a wildcard and letters match in either case.
  In the small vault the filter \<^verbatim>\<open>H_me\<close> returns the chunk of the folder \<^verbatim>\<open>Home\<close>, and
  the filter \<^verbatim>\<open>work\<close> a chunk of the folder \<^verbatim>\<open>Work\<close>.
\<close>

theorem folder_like_is_not_prefix:
  "map_sum id (map folder)
     (snd (search (ex_world None) (str ''q'') (str ''vault.db'') 2 (Some (str ''H_me'')) None))
     = Inr [Some (str ''Home'')]
   \<and> \<not> startswith (str ''Home'') (str ''H_me'')
   \<and> map_sum id (map folder)
       (snd (search (ex_world None) (str ''q'') (str ''vault.db'') 1 (Some (str ''work'')) None))
       = Inr [Some (str ''Work'')]
   \<and> \<not> startswith (str ''Work'') (str ''work'')"
  by (simp add: search_eval json_eval startswith_def)

text \<open>
  What the code does guarantee for a folder without a single quote: every result has a
  folder, and the folder matches the pattern \<^verbatim>\<open>F%\<close> in the sense of \<^verbatim>\<open>LIKE\<close>.
\<close>

lemma folder_filter_like:
  assumes "snd (search w query db_path n_results (Some F) where_arg) = Inr rs"
    and "F \<noteq> []" and "39 \<notin> set F" and "r \<in> set rs"
  shows "\<exists>d. folder r = Some d \<and> sql_like (F @ str ''%'') d"
proof -
  let ?cls = "where_clauses (Some F) where_arg"
  from assms(1) obtain keep rows where
    keep: "where_rows w ?cls = Some keep"
    and built: "build_results
                  (py_prefix n_results (sort_key (\<lambda>r. c_distance (fst r)) (filter keep rows)))
                = Inr rs"
    by (rule search_returns)
  from assms(2) obtain rest where cls: "?cls = FolderLike F # rest"
    by (simp add: where_clauses_def)
  have like: "\<exists>d. col n_folder (snd row) = Some d \<and> sql_like (F @ str ''%'') d"
    if "keep row" for row
    using keep that assms(3) unfolding cls
    by (auto simp: where_rows_def clause_rows_def split: option.splits prod.splits)
  from built have "map folder rs = map (\<lambda>r. col n_folder (snd r))
      (py_prefix n_results (sort_key (\<lambda>r. c_distance (fst r)) (filter keep rows)))"
    by (simp add: build_results_rows)
  moreover from assms(4) have "folder r \<in> set (map folder rs)" by simp
  ultimately obtain row where
    "row \<in> set (py_prefix n_results (sort_key (\<lambda>r. c_distance (fst r)) (filter keep rows)))"
    and f: "folder r = col n_folder (snd row)" by auto
  then have "row \<in> set (filter keep rows)"
    by (auto simp: py_prefix_def dest: in_set_takeD split: if_splits)
  then have "keep row" by simp
  with like f show ?thesis by simp
qed

subsection \<open>C9: the connection on the exit paths\<close>

text \<open>
  C9 says that no execution of \<open>search\<close> ends with the connection still open. The code
  closes the connection at the normal end and in the handler of \<^verbatim>\<open>sqlite3.Error\<close>
  only. A stored tags text that is not JSON makes \<^verbatim>\<open>json.loads\<close> raise while the
  results are built, and an embedding function that raises does so right after the
  connection was opened: both exceptions leave \<open>search\<close> with the connection open. The
  third equation is the path that does close it.
\<close>

theorem connection_left_open:
  "search (ex_world (Some (str ''not json''))) (str ''q'') (str ''vault.db'') 2 None None
     = (ConnOpen, Inl JSONDecodeError)
   \<and> search ((ex_world None)\<lparr>ef := \<lambda>q. None\<rparr>) (str ''q'') (str ''vault.db'') 2 None None
     = (ConnOpen, Inl EmbeddingError)
   \<and> search (ex_world None) (str ''q'') (str ''vault.db'') 2 None (Some (str ''due IS''))
     = (ConnClosed, Inl (SystemExit 1))"
  by (simp add: search_eval json_eval)

subsection \<open>C10: result construction is not total\<close>

text \<open>
  C10. There is a stored tags text, not empty and not valid JSON (\<^verbatim>\<open>not json\<close>), for
  which \<open>search\<close> ends with the exception of \<^verbatim>\<open>json.loads\<close> instead of returning a
  list.
\<close>

theorem invalid_tags_raise:
  "\<exists>t. t \<noteq> [] \<and> json_loads t = None
       \<and> snd (search (ex_world (Some t)) (str ''q'') (str ''vault.db'') 2 None None)
           = Inl JSONDecodeError"
proof (intro exI conjI)
  show "str ''not json'' \<noteq> []" by (simp add: str_def)
  show "json_loads (str ''not json'') = None" by (simp add: json_eval)
  show "snd (search (ex_world (Some (str ''not json''))) (str ''q'') (str ''vault.db'') 2
              None None) = Inl JSONDecodeError"
    by (simp add: search_eval json_eval)
qed

subsection \<open>C8: the tags of a result\<close>

text \<open>
  First the decoder is shown to read back what the serialiser writes: a \<^verbatim>\<open>\uXXXX\<close>
  escape, a surrogate pair, an escaped character, an encoded string, the items of a
  list, and the whole text.
\<close>

lemma hex_digit_hex_char: "d < 16 \<Longrightarrow> hex_digit (hex_char d) = Some d"
  by (auto simp: hex_digit_def hex_char_def)

lemma hex4_value:
  fixes n :: nat
  assumes "n < 65536"
  shows "((n div 4096 mod 16 * 16 + n div 256 mod 16) * 16 + n div 16 mod 16) * 16 + n mod 16 = n"
proof -
  have d1: "n div 256 = n div 16 div 16" using div_mult2_eq [of n 16 16] by simp
  have d2: "n div 4096 = n div 256 div 16" using div_mult2_eq [of n 256 16] by simp
  have top: "n div 4096 < 16" using assms by (simp add: less_mult_imp_div_less)
  have a: "n div 4096 mod 16 = n div 4096" using top by simp
  have b: "n div 4096 * 16 + n div 256 mod 16 = n div 256"
    unfolding d2 by (rule div_mult_mod_eq)
  have c: "n div 256 * 16 + n div 16 mod 16 = n div 16"
    unfolding d1 by (rule div_mult_mod_eq)
  have d: "n div 16 * 16 + n mod 16 = n"
    by (rule div_mult_mod_eq)
  show ?thesis unfolding a b c d ..
qed

lemma decode_hex4:
  assumes "n < 65536"
  shows "decode_uXXXX (hex4 n @ rest) = Some n"
proof -
  have "decode_uXXXX (hex4 n @ rest) =
          Some (((n div 4096 mod 16 * 16 + n div 256 mod 16) * 16 + n div 16 mod 16) * 16
                + n mod 16)"
    by (simp add: hex4_def hex_digit_hex_char)
  then show ?thesis
    by (simp only: hex4_value [OF assms])
qed

lemma scanstring_u:
  "scanstring (92 # 117 # es) =
     (case decode_uXXXX es of
        None \<Rightarrow> None
      | Some uni \<Rightarrow>
          if 0xD800 \<le> uni \<and> uni \<le> 0xDBFF \<and> take 2 (drop 4 es) = [92, 117] then
            (case decode_uXXXX (drop 6 es) of
               None \<Rightarrow> None
             | Some uni2 \<Rightarrow>
                 if 0xDC00 \<le> uni2 \<and> uni2 \<le> 0xDFFF then
                   append_chr (0x10000 + ((uni - 0xD800) * 1024 + (uni2 - 0xDC00)))
                     (scanstring (drop 10 es))
                 else append_chr uni (scanstring (drop 4 es)))
          else append_chr uni (scanstring (drop 4 es)))"
  by simp

lemma scanstring_u_escape:
  assumes "n < 65536" and "n < 0xD800 \<or> 0xDBFF < n"
  shows "scanstring (92 # 117 # hex4 n @ rest) = append_chr n (scanstring rest)"
proof -
  have d: "decode_uXXXX (hex4 n @ rest) = Some n"
    using assms(1) by (rule decode_hex4)
  have dr: "drop 4 (hex4 n @ rest) = rest"
    by (simp add: hex4_def)
  have no: "\<not> (0xD800 \<le> n \<and> n \<le> 0xDBFF \<and> take 2 rest = [92, 117])"
    using assms(2) by auto
  show ?thesis
    by (simp only: scanstring_u d option.case no if_False dr)
qed

lemma scanstring_surrogate_pair:
  assumes "0xD800 \<le> hi" "hi \<le> 0xDBFF" "0xDC00 \<le> lo" "lo \<le> 0xDFFF"
  shows "scanstring (92 # 117 # hex4 hi @ 92 # 117 # hex4 lo @ rest) =
           append_chr (0x10000 + ((hi - 0xD800) * 1024 + (lo - 0xDC00))) (scanstring rest)"
proof -
  let ?es = "hex4 hi @ 92 # 117 # hex4 lo @ rest"
  have d4: "drop 4 ?es = 92 # 117 # hex4 lo @ rest" by (simp add: hex4_def)
  have d6: "drop 6 ?es = hex4 lo @ rest" by (simp add: hex4_def)
  have d10: "drop 10 ?es = rest" by (simp add: hex4_def)
  have t2: "take 2 (92 # 117 # hex4 lo @ rest) = [92, 117]" by simp
  have hi: "decode_uXXXX ?es = Some hi"
    using assms(2) by (intro decode_hex4) simp
  have lo: "decode_uXXXX (hex4 lo @ rest) = Some lo"
    using assms(4) by (intro decode_hex4) simp
  have c1: "(0xD800 \<le> hi \<and> hi \<le> 0xDBFF \<and> [92, 117] = [92, 117::nat]) = True"
    using assms(1,2) by simp
  have c2: "(0xDC00 \<le> lo \<and> lo \<le> 0xDFFF) = True"
    using assms(3,4) by simp
  show ?thesis
    by (simp only: scanstring_u hi option.case d4 t2 c1 if_True d6 lo c2 d10)
qed

lemma escape_chr_cases:
  "(\<exists>e. escape_chr ea c = [92, e] \<and> BACKSLASH e = Some c)
   \<or> (escape_chr ea c = [c] \<and> c \<noteq> 34 \<and> c \<noteq> 92 \<and> 32 \<le> c)
   \<or> (escape_chr ea c = 92 # 117 # hex4 c \<and> c < 0x10000)
   \<or> (escape_chr ea c = 92 # 117 # hex4 (0xD800 + (c - 0x10000) div 1024 mod 1024)
                       @ 92 # 117 # hex4 (0xDC00 + (c - 0x10000) mod 1024)
       \<and> 0x10000 \<le> c)"
  by (simp add: escape_chr_def BACKSLASH_def)

lemma scanstring_plain:
  "c \<noteq> 34 \<Longrightarrow> c \<noteq> 92 \<Longrightarrow> 32 \<le> c \<Longrightarrow> scanstring (c # rest) = append_chr c (scanstring rest)"
  by simp

lemma scanstring_short_escape:
  assumes "BACKSLASH e = Some c"
  shows "scanstring (92 # e # rest) = append_chr c (scanstring rest)"
proof -
  from assms have "e \<noteq> 117" by (auto simp: BACKSLASH_def split: if_splits)
  with assms show ?thesis by simp
qed

lemma surrogates_of_supplementary:
  fixes c :: nat
  assumes "0x10000 \<le> c" and "c < 0x110000"
  shows "0x10000 + ((0xD800 + (c - 0x10000) div 1024 mod 1024 - 0xD800) * 1024
           + (0xDC00 + (c - 0x10000) mod 1024 - 0xDC00)) = c"
proof -
  define m where "m = c - 0x10000"
  from assms have m: "m < 1024 * 1024" and c: "c = 0x10000 + m" by (simp_all add: m_def)
  from m have "m div 1024 < 1024" by (simp add: less_mult_imp_div_less)
  then have "m div 1024 mod 1024 = m div 1024" by simp
  moreover have "m div 1024 * 1024 + m mod 1024 = m" by (rule div_mult_mod_eq)
  ultimately have "(m div 1024 mod 1024) * 1024 + m mod 1024 = m" by simp
  then show ?thesis unfolding m_def [symmetric] c by simp
qed

lemma scanstring_escape_chr:
  assumes "scalar c"
  shows "scanstring (escape_chr ea c @ rest) = append_chr c (scanstring rest)"
proof -
  from escape_chr_cases [of ea c] consider
      (short) e where "escape_chr ea c = [92, e]" "BACKSLASH e = Some c"
    | (plain) "escape_chr ea c = [c]" "c \<noteq> 34" "c \<noteq> 92" "32 \<le> c"
    | (bmp) "escape_chr ea c = 92 # 117 # hex4 c" "c < 0x10000"
    | (pair) "escape_chr ea c = 92 # 117 # hex4 (0xD800 + (c - 0x10000) div 1024 mod 1024)
                       @ 92 # 117 # hex4 (0xDC00 + (c - 0x10000) mod 1024)" "0x10000 \<le> c"
    by blast
  then show ?thesis
  proof cases
    case short
    then show ?thesis by (simp add: scanstring_short_escape del: scanstring.simps)
  next
    case plain
    then show ?thesis by (simp add: scanstring_plain del: scanstring.simps)
  next
    case bmp
    from assms bmp(2) have "c < 0xD800 \<or> 0xDBFF < c" by (auto simp: scalar_def)
    with bmp show ?thesis by (simp add: scanstring_u_escape del: scanstring.simps)
  next
    case pair
    from assms pair(2) have lt: "c < 0x110000" by (auto simp: scalar_def)
    let ?hi = "0xD800 + (c - 0x10000) div 1024 mod 1024"
    let ?lo = "0xDC00 + (c - 0x10000) mod 1024"
    have "(c - 0x10000) div 1024 mod 1024 < 1024" "(c - 0x10000) mod 1024 < 1024"
      by simp_all
    then have r: "0xD800 \<le> ?hi" "?hi \<le> 0xDBFF" "0xDC00 \<le> ?lo" "?lo \<le> 0xDFFF"
      by simp_all
    have "scanstring (92 # 117 # hex4 ?hi @ 92 # 117 # hex4 ?lo @ rest) =
            append_chr (0x10000 + ((?hi - 0xD800) * 1024 + (?lo - 0xDC00))) (scanstring rest)"
      using r by (rule scanstring_surrogate_pair)
    then have "scanstring (92 # 117 # hex4 ?hi @ 92 # 117 # hex4 ?lo @ rest) =
            append_chr c (scanstring rest)"
      by (simp only: surrogates_of_supplementary [OF pair(2) lt])
    then show ?thesis by (simp only: pair(1) append.simps append_assoc)
  qed
qed

lemma scanstring_encoded:
  assumes "list_all scalar s"
  shows "scanstring (concat (map (escape_chr ea) s) @ 34 # rest) = Some (s, rest)"
  using assms
proof (induction s)
  case Nil
  then show ?case by simp
next
  case (Cons c s)
  then show ?case
    by (simp add: scanstring_escape_chr append_chr_def del: scanstring.simps)
qed

lemma skip_ws_stop: "\<not> is_ws c \<Longrightarrow> skip_ws (c # s) = c # s"
  by (simp add: skip_ws_def)

lemma skip_ws_append: "list_all is_ws ws \<Longrightarrow> skip_ws (ws @ s) = skip_ws s"
  by (induction ws) (simp_all add: skip_ws_def)

lemma not_ws [simp]: "\<not> is_ws 34" "\<not> is_ws 44" "\<not> is_ws 91" "\<not> is_ws 93"
  by (simp_all add: is_ws_def)

lemma encode_basestring_Cons:
  "encode_basestring ea s @ rest = 34 # concat (map (escape_chr ea) s) @ 34 # rest"
  by (simp add: encode_basestring_def)

lemma encode_basestring_nonempty [simp]: "encode_basestring ea s \<noteq> []"
  by (simp add: encode_basestring_def)

lemma scan_once_string:
  assumes "list_all scalar s"
  shows "scan_once (encode_basestring ea s @ rest) = Some (PyStr s, rest)"
  unfolding encode_basestring_Cons
  by (subst scan_once.simps) (simp add: scanstring_encoded [OF assms])

lemma join_items_Cons: "\<exists>t. join_items sep (x # xs) = x @ t"
  by (cases xs) simp_all

lemma array_loop_strings:
  assumes "list_all is_ws ws1" and "list_all is_ws ws2"
  shows "list_all (list_all scalar) (x # xs) \<Longrightarrow>
         array_loop vals
           (join_items (ws1 @ 44 # ws2) (map (encode_basestring ea) (x # xs)) @ 93 # rest) =
         Some (PyList (vals @ map PyStr (x # xs)), rest)"
proof (induction xs arbitrary: x vals)
  case Nil
  then have x: "list_all scalar x" by simp
  show ?case
    by (subst array_loop.simps)
      (simp add: scan_once_string [OF x] skip_ws_stop)
next
  case (Cons y ys)
  then have x: "list_all scalar x" and rest: "list_all (list_all scalar) (y # ys)"
    by simp_all
  let ?tail = "join_items (ws1 @ 44 # ws2) (map (encode_basestring ea) (y # ys)) @ 93 # rest"
  have whole: "join_items (ws1 @ 44 # ws2) (map (encode_basestring ea) (x # y # ys)) @ 93 # rest
      = encode_basestring ea x @ (ws1 @ 44 # ws2 @ ?tail)"
    by simp
  have after: "skip_ws (ws1 @ 44 # ws2 @ ?tail) = 44 # ws2 @ ?tail"
    using assms(1) by (simp add: skip_ws_append skip_ws_stop)
  obtain t where "join_items (ws1 @ 44 # ws2) (map (encode_basestring ea) (y # ys))
      = encode_basestring ea y @ t"
    using join_items_Cons [of "ws1 @ 44 # ws2" "encode_basestring ea y"
        "map (encode_basestring ea) ys"] by auto
  then have starts: "?tail = 34 # (concat (map (escape_chr ea) y) @ [34] @ t @ 93 # rest)"
    by (simp add: encode_basestring_def)
  have "skip_ws (ws2 @ 34 # (concat (map (escape_chr ea) y) @ [34] @ t @ 93 # rest))
      = 34 # (concat (map (escape_chr ea) y) @ [34] @ t @ 93 # rest)"
    using assms(2) by (simp add: skip_ws_append skip_ws_stop)
  then have next_item: "skip_ws (ws2 @ ?tail) = ?tail"
    by (simp only: starts [symmetric])
  have shorter: "length (ws1 @ 44 # ws2 @ ?tail)
      < length (encode_basestring ea x @ (ws1 @ 44 # ws2 @ ?tail))"
    by (simp add: encode_basestring_def)
  show ?case
    unfolding whole
    by (subst array_loop.simps)
      (simp only: scan_once_string [OF x] option.case prod.case shorter not_True_eq_False
         if_False after list.case not_ws Cons.IH [OF rest] next_item,
       simp)
qed

lemma scan_once_list:
  assumes "list_all is_ws ws1" and "list_all is_ws ws2" and "list_all (list_all scalar) xs"
  shows "scan_once (json_dumps_list ea (ws1 @ 44 # ws2) xs @ rest) = Some (PyList (map PyStr xs), rest)"
proof (cases xs)
  case Nil
  show ?thesis
    unfolding Nil json_dumps_list_def
    by (subst scan_once.simps) (simp add: skip_ws_stop)
next
  case (Cons y ys)
  let ?items = "join_items (ws1 @ 44 # ws2) (map (encode_basestring ea) (y # ys)) @ 93 # rest"
  obtain t where "join_items (ws1 @ 44 # ws2) (map (encode_basestring ea) (y # ys))
      = encode_basestring ea y @ t"
    using join_items_Cons [of "ws1 @ 44 # ws2" "encode_basestring ea y"
        "map (encode_basestring ea) ys"] by auto
  then have starts: "?items = 34 # (concat (map (escape_chr ea) y) @ [34] @ t @ 93 # rest)"
    by (simp add: encode_basestring_def)
  have skip: "skip_ws ?items = ?items"
    by (subst (2) starts, subst starts) (simp add: skip_ws_stop)
  have loop: "array_loop [] ?items = Some (PyList (map PyStr (y # ys)), rest)"
    using array_loop_strings [OF assms(1,2), where x = y and xs = ys and vals = "[]" and rest = rest and ea = ea] assms(3) Cons by simp
  have "scan_once (91 # ?items) = array_loop [] ?items"
    by (subst scan_once.simps, simp only: list.case skip, subst (1 2) starts)
      (simp add: starts [symmetric])
  with loop show ?thesis
    unfolding Cons json_dumps_list_def by simp
qed

lemma json_loads_dumps:
  assumes "list_all is_ws ws1" and "list_all is_ws ws2" and "list_all (list_all scalar) xs"
  shows "json_loads (json_dumps_list ea (ws1 @ 44 # ws2) xs) = Some (PyList (map PyStr xs))"
proof -
  let ?s = "json_dumps_list ea (ws1 @ 44 # ws2) xs"
  have first: "?s = 91 # tl ?s" by (simp add: json_dumps_list_def)
  have "take 1 ?s \<noteq> [0xFEFF]" by (subst first) simp
  moreover have "skip_ws ?s = ?s" by (subst (2) first, subst first) (simp add: skip_ws_stop)
  moreover have "scan_once ?s = Some (PyList (map PyStr xs), [])"
    using scan_once_list [OF assms, where rest = "[]" and ea = ea] by simp
  ultimately show ?thesis
    by (simp add: json_loads_def skip_ws_def)
qed

lemma json_dumps_list_nonempty: "json_dumps_list ea sep xs \<noteq> []"
  by (simp add: json_dumps_list_def)

lemma make_result_tags:
  "map_sum id tags (make_result row) = tags_of (col n_tags (snd row))"
  by (simp add: make_result_def split: sum.splits)

text \<open>
  C8. Every result of \<open>search\<close> is made by \<open>make_result\<close> from a row of the join
  (lemma \<open>search_results_made\<close>). When the row's stored tags are the serialised list of
  the strings \<open>xs\<close> (written with or without \<open>ensure_ascii\<close>, the items separated by a
  comma with any white space around it), the result's \<open>tags\<close> field is the list of
  these strings in the same order. When the stored tags are \<^verbatim>\<open>NULL\<close> or the empty
  string, or the chunk has no note at all, the field is the empty list. In every one
  of these cases the result is built and the field is a list, never absent and never
  \<^verbatim>\<open>None\<close>.
\<close>

theorem tags_round_trip:
  assumes "list_all (list_all scalar) xs" and "list_all is_ws ws1" and "list_all is_ws ws2"
  shows "map_sum id tags
           (make_result (c, Some (n\<lparr>n_tags := Some (json_dumps_list ea (ws1 @ 44 # ws2) xs)\<rparr>)))
           = Inr (PyList (map PyStr xs))
       \<and> map_sum id tags (make_result (c, Some (n\<lparr>n_tags := None\<rparr>))) = Inr (PyList [])
       \<and> map_sum id tags (make_result (c, Some (n\<lparr>n_tags := Some []\<rparr>))) = Inr (PyList [])
       \<and> map_sum id tags (make_result (c, None)) = Inr (PyList [])"
  using json_loads_dumps [OF assms(2,3,1)]
  by (simp add: make_result_tags tags_of_def col_def json_dumps_list_nonempty)

theorem tags_round_trip_witness:
  "list_all (list_all scalar) [str ''a'', str ''b'']
   \<and> list_all is_ws [] \<and> list_all is_ws [32]
   \<and> json_dumps_list True [44] [str ''a'', str ''b''] = str ''[\"a\",\"b\"]''
   \<and> json_dumps_list True [44, 32] [str ''a'', str ''b''] = str ''[\"a\", \"b\"]''
   \<and> map_sum id tags
        (make_result (hit_of (ex_world None) [0] (ex_chunk 1 ''w.md'' ''alpha'' 1),
                      Some (ex_note ''w.md'' ''Work'' (Some (str ''[\"a\",\"b\"]'')))))
        = Inr (PyList [PyStr (str ''a''), PyStr (str ''b'')])
   \<and> map_sum id tags
        (make_result (hit_of (ex_world None) [0] (ex_chunk 1 ''w.md'' ''alpha'' 1),
                      Some (ex_note ''w.md'' ''Work'' (Some (str ''[\"a\", \"b\"]'')))))
        = Inr (PyList [PyStr (str ''a''), PyStr (str ''b'')])"
proof -
  let ?c = "hit_of (ex_world None) [0] (ex_chunk 1 ''w.md'' ''alpha'' 1)"
  let ?n = "ex_note ''w.md'' ''Work'' None"
  have s: "list_all (list_all scalar) [str ''a'', str ''b'']"
    by (simp add: scalar_def str_def)
  have w: "list_all is_ws []" "list_all is_ws [32]"
    by (simp_all add: is_ws_def)
  have d: "json_dumps_list True [44] [str ''a'', str ''b''] = str ''[\"a\",\"b\"]''"
    "json_dumps_list True [44, 32] [str ''a'', str ''b''] = str ''[\"a\", \"b\"]''"
    by (simp_all add: json_dumps_list_def encode_basestring_def escape_chr_def str_def)
  have n: "?n\<lparr>n_tags := Some t\<rparr> = ex_note ''w.md'' ''Work'' (Some t)" for t
    by (simp add: ex_note_def)
  from tags_round_trip [OF s w(1) w(1), where ea = True and c = ?c and n = ?n]
  have "map_sum id tags (make_result (?c, Some (?n\<lparr>n_tags :=
          Some (json_dumps_list True [44] [str ''a'', str ''b''])\<rparr>)))
        = Inr (PyList [PyStr (str ''a''), PyStr (str ''b'')])"
    by simp
  then have compact: "map_sum id tags
        (make_result (?c, Some (ex_note ''w.md'' ''Work'' (Some (str ''[\"a\",\"b\"]'')))))
        = Inr (PyList [PyStr (str ''a''), PyStr (str ''b'')])"
    by (simp only: d n)
  from tags_round_trip [OF s w(1) w(2), where ea = True and c = ?c and n = ?n]
  have "map_sum id tags (make_result (?c, Some (?n\<lparr>n_tags :=
          Some (json_dumps_list True [44, 32] [str ''a'', str ''b''])\<rparr>)))
        = Inr (PyList [PyStr (str ''a''), PyStr (str ''b'')])"
    by simp
  then have spaced: "map_sum id tags
        (make_result (?c, Some (ex_note ''w.md'' ''Work'' (Some (str ''[\"a\", \"b\"]'')))))
        = Inr (PyList [PyStr (str ''a''), PyStr (str ''b'')])"
    by (simp only: d n)
  from s w d compact spaced show ?thesis by (intro conjI)
qed

end
